theory Spec2Isabelle
  imports Main "HOL-Library.Word"
begin

section \<open>Data model\<close>

text \<open>
  Go's \<^verbatim>\<open>error\<close> interface: \<^verbatim>\<open>nil\<close> is \<open>None\<close>. \<open>ErrCircuitOpen\<close> is the package's
  sentinel (failover.go, line 62); \<open>Canceled\<close> and \<open>DeadlineExceeded\<close> are the two values
  \<^verbatim>\<open>ctx.Err()\<close> of package context can return; \<open>WorkError n\<close> stands for any other
  error value, such as \<^verbatim>\<open>errTest\<close> of the test file.
\<close>

datatype error = ErrCircuitOpen | Canceled | DeadlineExceeded | WorkError nat

text \<open>
  \<^verbatim>\<open>time.Duration\<close> is an \<^verbatim>\<open>int64\<close> count of nanoseconds and Go's \<^verbatim>\<open>int\<close> is taken at its
  64-bit size: both are 64-bit words, read as two's complement (\<open>sint\<close>) and compared
  with the signed orders \<open><s\<close> and \<open>\<le>s\<close>; \<open>+\<close> and \<open>*\<close> wrap around as Go's do.
  A \<^verbatim>\<open>time.Time\<close> is an instant on a line of nanoseconds whose origin is the zero Time.
\<close>

type_synonym Duration = "64 word"
type_synonym GoInt = "64 word"
type_synonym Time = int

text \<open>
  Both functions of the package act on the outside world only by calling the work
  function, by waiting on a timer, by receiving from \<^verbatim>\<open>ctx.Done()\<close> and by reading the
  clock. A run is described by the list of these interactions, oldest first, each with
  the answer it got; whatever the outside world answers next is a function of the
  interactions so far.
\<close>

datatype event =
    Invoked "error option"  \<comment> \<open>\<^verbatim>\<open>fn()\<close> was called and returned this\<close>
  | Waited Duration         \<comment> \<open>\<^verbatim>\<open>time.After(delay)\<close> fired after a wait of \<open>delay\<close>\<close>
  | Cancelled "error option" \<comment> \<open>a receive from \<^verbatim>\<open>ctx.Done()\<close> succeeded and \<^verbatim>\<open>ctx.Err()\<close> gave this\<close>
  | Clock Time              \<comment> \<open>the clock was read and showed this instant\<close>

text \<open>\<^verbatim>\<open>type WorkFunc func() error\<close>: what the call returns after the given interactions.\<close>

type_synonym WorkFunc = "event list \<Rightarrow> error option"

text \<open>
  A \<^verbatim>\<open>context.Context\<close>, as far as \<^verbatim>\<open>Retry\<close> uses it. \<open>Done\<close> says whether the channel
  \<^verbatim>\<open>ctx.Done()\<close> is closed at the non-blocking \<^verbatim>\<open>select\<close> of lines 20-26; \<open>Done_first\<close>
  says whether, in the blocking \<^verbatim>\<open>select\<close> of lines 39-44, the receive from
  \<^verbatim>\<open>ctx.Done()\<close> is the case that proceeds rather than the timer \<^verbatim>\<open>time.After(delay)\<close>;
  \<open>Err\<close> is \<^verbatim>\<open>ctx.Err()\<close>.
\<close>

record Context =
  Done :: "event list \<Rightarrow> bool"
  Done_first :: "Duration \<Rightarrow> event list \<Rightarrow> bool"
  Err :: "event list \<Rightarrow> error option"

section \<open>Retry\<close>

text \<open>
  The loop \<^verbatim>\<open>for i := range attempts\<close> of \<^verbatim>\<open>Retry\<close> (lines 19-45) from index \<open>i\<close> on,
  with the current \<open>delay\<close>, the last error \<open>err\<close> and the interactions \<open>h\<close> so far.
  It returns what \<^verbatim>\<open>Retry\<close> returns, and the interactions of the whole run.
\<close>

function Retry_loop ::
  "Context \<Rightarrow> GoInt \<Rightarrow> WorkFunc \<Rightarrow> GoInt \<Rightarrow> Duration \<Rightarrow> error option \<Rightarrow> event list
     \<Rightarrow> error option \<times> event list" where
  "Retry_loop ctx attempts fn i delay err h =
     (if i <s attempts then
        (if Done ctx h then (Err ctx h, h @ [Cancelled (Err ctx h)])
         else
           (let err' = fn h; h1 = h @ [Invoked err'] in
            if err' = None then (None, h1)
            else if i = attempts - 1 then (err', h1)
            else if Done_first ctx delay h1 then (Err ctx h1, h1 @ [Cancelled (Err ctx h1)])
            else Retry_loop ctx attempts fn (i + 1) (delay * 2) err' (h1 @ [Waited delay])))
      else (err, h))"
  by pat_completeness auto

termination
proof (relation "measure (\<lambda>(ctx, attempts, fn, i, delay, err, h). nat (sint attempts - sint i))")
  show "wf (measure (\<lambda>(ctx, attempts, fn, i, delay, err, h). nat (sint attempts - sint i)))"
    by simp
next
  fix ctx :: Context and attempts i delay :: "64 word" and fn :: WorkFunc
    and err :: "error option" and h :: "event list" and x xa
  assume "i <s attempts"
  then have lt: "sint i < sint attempts"
    by (simp add: word_sless_alt)
  have "sint attempts < 2 ^ 63" "- (2 ^ 63) \<le> sint i"
    using sint_lt [of attempts] sint_ge [of i] by simp_all
  with lt have "signed_take_bit 63 (sint i + 1) = sint i + 1"
    by (intro signed_take_bit_int_eq_self) auto
  then have "sint (i + 1) = sint i + 1"
    by (simp add: sint_word_ariths)
  with lt show "((ctx, attempts, fn, i + 1, delay * 2, x, xa @ [Waited delay]),
          (ctx, attempts, fn, i, delay, err, h))
        \<in> measure (\<lambda>(ctx, attempts, fn, i, delay, err, h). nat (sint attempts - sint i))"
    by simp
qed

declare Retry_loop.simps [simp del]

definition Retry :: "Context \<Rightarrow> GoInt \<Rightarrow> Duration \<Rightarrow> WorkFunc \<Rightarrow> error option \<times> event list" where
  "Retry ctx attempts initialDelay fn = Retry_loop ctx attempts fn 0 initialDelay None []"

text \<open>What a run did: how often it called the work function, and the waits it completed.\<close>

fun invocations :: "event list \<Rightarrow> nat" where
  "invocations [] = 0"
| "invocations (Invoked r # h) = Suc (invocations h)"
| "invocations (e # h) = invocations h"


section \<open>CircuitBreaker\<close>

datatype State = Closed | Open | HalfOpen

text \<open>
  The struct \<^verbatim>\<open>CircuitBreaker\<close> (lines 65-76) without its mutex: the calls are taken
  one after the other, each running to its end before the next begins.
\<close>

record CircuitBreaker =
  state :: State
  failureThreshold :: GoInt
  successThreshold :: GoInt
  openTimeout :: Duration
  failureCount :: GoInt
  successCount :: GoInt
  lastFailureTime :: Time

text \<open>The fields the composite literal leaves out have Go's zero values.\<close>

definition NewCircuitBreaker :: "GoInt \<Rightarrow> GoInt \<Rightarrow> Duration \<Rightarrow> CircuitBreaker" where
  "NewCircuitBreaker failureThreshold' successThreshold' openTimeout' =
     \<lparr>state = Closed, failureThreshold = failureThreshold',
      successThreshold = successThreshold', openTimeout = openTimeout',
      failureCount = 0, successCount = 0, lastFailureTime = 0\<rparr>"

text \<open>
  The clock of the standard library. \<open>now h\<close> is what \<^verbatim>\<open>time.Now()\<close> shows after the
  interactions \<open>h\<close>. \<^verbatim>\<open>time.Since(t)\<close> is \<^verbatim>\<open>time.Now().Sub(t)\<close>, and \<open>Sub\<close> follows the
  documentation of \<^verbatim>\<open>Time.Sub\<close>: the difference, or the largest or smallest Duration
  when the difference does not fit.
\<close>

type_synonym Clock = "event list \<Rightarrow> Time"

definition Sub :: "Time \<Rightarrow> Time \<Rightarrow> Duration" where
  "Sub t u = word_of_int (max (- (2 ^ 63)) (min (2 ^ 63 - 1) (t - u)))"

text \<open>
  The first critical section of \<^verbatim>\<open>Execute\<close> (lines 90-103): \<open>None\<close> when the call is
  turned away, otherwise the breaker as the work function meets it.
\<close>

definition Execute_gate ::
  "Clock \<Rightarrow> CircuitBreaker \<Rightarrow> event list \<Rightarrow> CircuitBreaker option \<times> event list" where
  "Execute_gate now cb h =
     (if state cb = Open then
        (if openTimeout cb <s Sub (now h) (lastFailureTime cb)
         then (Some (cb\<lparr>state := HalfOpen, successCount := 0\<rparr>), h @ [Clock (now h)])
         else (None, h @ [Clock (now h)]))
      else (Some cb, h))"

definition onSuccess :: "CircuitBreaker \<Rightarrow> error option \<times> CircuitBreaker" where
  "onSuccess cb =
     (case state cb of
        HalfOpen \<Rightarrow>
          (let cb1 = cb\<lparr>successCount := successCount cb + 1\<rparr> in
           if successThreshold cb1 \<le>s successCount cb1
           then (None, cb1\<lparr>state := Closed, failureCount := 0\<rparr>)
           else (None, cb1))
      | Closed \<Rightarrow> (None, cb\<lparr>failureCount := 0\<rparr>)
      | Open \<Rightarrow> (None, cb))"

definition onFailure ::
  "Clock \<Rightarrow> CircuitBreaker \<Rightarrow> event list \<Rightarrow> error option \<times> CircuitBreaker \<times> event list" where
  "onFailure now cb h =
     (case state cb of
        HalfOpen \<Rightarrow>
          (None, cb\<lparr>state := Open, lastFailureTime := now h\<rparr>, h @ [Clock (now h)])
      | Closed \<Rightarrow>
          (let cb1 = cb\<lparr>failureCount := failureCount cb + 1\<rparr> in
           if failureThreshold cb1 \<le>s failureCount cb1
           then (None, cb1\<lparr>state := Open, lastFailureTime := now h\<rparr>, h @ [Clock (now h)])
           else (None, cb1, h))
      | Open \<Rightarrow> (None, cb, h))"

text \<open>
  \<^verbatim>\<open>Execute\<close> (lines 89-116): the error it returns, the breaker it leaves and the
  interactions so far.
\<close>

definition Execute ::
  "Clock \<Rightarrow> CircuitBreaker \<Rightarrow> WorkFunc \<Rightarrow> event list
     \<Rightarrow> error option \<times> CircuitBreaker \<times> event list" where
  "Execute now cb fn h =
     (case Execute_gate now cb h of
        (None, h1) \<Rightarrow> (Some ErrCircuitOpen, cb, h1)
      | (Some cb1, h1) \<Rightarrow>
          (let err = fn h1; h2 = h1 @ [Invoked err] in
           if err = None then (fst (onSuccess cb1), snd (onSuccess cb1), h2)
           else (err, snd (onFailure now cb1 h2))))"

text \<open>Calls of \<^verbatim>\<open>Execute\<close> on one breaker, one after the other; the breaker they leave.\<close>

fun Execute_each ::
  "Clock \<Rightarrow> WorkFunc list \<Rightarrow> CircuitBreaker \<Rightarrow> event list \<Rightarrow> CircuitBreaker \<times> event list" where
  "Execute_each now [] cb h = (cb, h)"
| "Execute_each now (fn # fns) cb h =
     (case Execute now cb fn h of (err, cb', h') \<Rightarrow> Execute_each now fns cb' h')"

section \<open>The inputs of the test file\<close>

text \<open>
  \<^verbatim>\<open>context.Background()\<close> is never cancelled; \<open>cancelled\<close> is a context whose
  \<^verbatim>\<open>cancel()\<close> has been called before the run; \<open>expiring\<close> is a context whose deadline
  passes while the work function runs for the first time, as the one of
  \<^verbatim>\<open>TestRetry_ContextTimeout\<close> does; \<open>succeed\<close> and \<open>fail\<close> are the two work
  functions of \<^verbatim>\<open>TestCircuitBreaker_Flow\<close>, \<open>fail\<close> returning \<^verbatim>\<open>errTest\<close>; \<open>succeed_at k\<close>
  fails until its \<open>k\<close>-th invocation, which succeeds, as the closure of
  \<^verbatim>\<open>TestRetry_SuccessAfterFailures\<close> does with \<open>k = 3\<close>.
\<close>

definition Background :: Context where
  "Background = \<lparr>Done = (\<lambda>h. False), Done_first = (\<lambda>d h. False), Err = (\<lambda>h. None)\<rparr>"

definition cancelled :: Context where
  "cancelled = \<lparr>Done = (\<lambda>h. True), Done_first = (\<lambda>d h. True), Err = (\<lambda>h. Some Canceled)\<rparr>"


definition errTest :: error where
  "errTest = WorkError 0"

definition succeed :: WorkFunc where
  "succeed h = None"

definition fail :: WorkFunc where
  "fail h = Some errTest"

definition succeed_at :: "nat \<Rightarrow> WorkFunc" where
  "succeed_at k h = (if Suc (invocations h) < k then Some errTest else None)"

text \<open>A clock that stands at \<open>t\<close>.\<close>

definition clock_at :: "Time \<Rightarrow> Clock" where
  "clock_at t h = t"

text \<open>
  The breaker of \<^verbatim>\<open>TestCircuitBreaker_Flow\<close> once it has tripped, its last failure at \<open>t\<close>.
\<close>

definition tripped :: "Time \<Rightarrow> CircuitBreaker" where
  "tripped t =
     (NewCircuitBreaker 2 2 100000000)\<lparr>state := Open, failureCount := 2, lastFailureTime := t\<rparr>"

section \<open>Retry: properties\<close>

lemma sint_succ_of_sless: "(i :: 64 word) <s a \<Longrightarrow> sint (i + 1) = sint i + 1"
proof -
  assume "i <s a"
  then have lt: "sint i < sint a" by (simp add: word_sless_alt)
  have ub: "sint a < 2 ^ 63" using sint_lt [of a] by simp
  have lb: "- (2 ^ 63) \<le> sint i" using sint_ge [of i] by simp
  have "sint (i + 1) = signed_take_bit 63 (sint i + 1)"
    by (simp add: sint_word_ariths)
  also have "\<dots> = sint i + 1"
    using lt ub lb by (intro signed_take_bit_int_eq_self) auto
  finally show ?thesis .
qed

lemma eq_pred_iff: "(i :: 64 word) <s a \<Longrightarrow> (i = a - 1) = (sint i + 1 = sint a)"
proof -
  assume lt: "i <s a"
  have "(i = a - 1) = (i + 1 = a)" by auto
  also have "\<dots> = (sint (i + 1) = sint a)" by (simp add: word_eq_iff_signed [where ?'a = int])
  also have "\<dots> = (sint i + 1 = sint a)" using lt by (simp add: sint_succ_of_sless)
  finally show ?thesis .
qed

lemma invocations_append: "invocations (a @ b) = invocations a + invocations b"
  by (induction a rule: invocations.induct) simp_all




lemma Retry_loop_success:
  "i <s N \<Longrightarrow> \<not> Done ctx h \<Longrightarrow> fn h = None \<Longrightarrow>
     Retry_loop ctx N fn i d e h = (None, h @ [Invoked None])"
  by (simp add: Retry_loop.simps [of ctx N fn i])

lemma Retry_loop_last:
  "i <s N \<Longrightarrow> \<not> Done ctx h \<Longrightarrow> fn h = Some w \<Longrightarrow> sint i + 1 = sint N \<Longrightarrow>
     Retry_loop ctx N fn i d e h = (Some w, h @ [Invoked (Some w)])"
  by (simp add: Retry_loop.simps [of ctx N fn i] eq_pred_iff Let_def)


lemma Retry_loop_again:
  "i <s N \<Longrightarrow> \<not> Done ctx h \<Longrightarrow> fn h = Some w \<Longrightarrow> sint i + 1 \<noteq> sint N \<Longrightarrow>
   \<not> Done_first ctx d (h @ [Invoked (Some w)]) \<Longrightarrow>
     Retry_loop ctx N fn i d e h =
       Retry_loop ctx N fn (i + 1) (d * 2) (Some w) (h @ [Invoked (Some w), Waited d])"
  by (simp add: Retry_loop.simps [of ctx N fn i] eq_pred_iff Let_def)

lemma Retry_loop_all_fail:
  assumes nd: "\<forall>h. \<not> Done ctx h" and nf: "\<forall>d h. \<not> Done_first ctx d h"
    and fails: "\<forall>h. fn h \<noteq> None"
  shows "sint N - sint i = int (Suc n) \<Longrightarrow>
    \<exists>t. Retry_loop ctx N fn i d e h = (fn (h @ t), h @ t @ [Invoked (fn (h @ t))]) \<and>
        invocations t = n"
proof (induction n arbitrary: i d e h)
  case 0
  then have lt: "i <s N" and last: "sint i + 1 = sint N"
    by (simp_all add: word_sless_alt)
  from fails have "fn h \<noteq> None" by simp
  then obtain w where w: "fn h = Some w" by auto
  from nd have nd': "\<not> Done ctx h" by simp
  have "Retry_loop ctx N fn i d e h = (fn (h @ []), h @ [] @ [Invoked (fn (h @ []))])"
    using Retry_loop_last [of i N ctx h fn w d e] lt nd' w last by simp
  then show ?case by (intro exI [of _ "[]"]) simp
next
  case (Suc n)
  then have lt: "i <s N" and notlast: "sint i + 1 \<noteq> sint N"
    by (simp_all add: word_sless_alt)
  from fails have "fn h \<noteq> None" by simp
  then obtain w where w: "fn h = Some w" by auto
  let ?h = "h @ [Invoked (Some w), Waited d]"
  from nd have nd': "\<not> Done ctx h" by simp
  from nf have nf': "\<not> Done_first ctx d (h @ [Invoked (Some w)])" by simp
  have step: "Retry_loop ctx N fn i d e h = Retry_loop ctx N fn (i + 1) (d * 2) (Some w) ?h"
    using Retry_loop_again [of i N ctx h fn w d e] lt nd' w notlast nf' by simp
  have "sint N - sint (i + 1) = int (Suc n)"
    using Suc.prems lt by (simp add: sint_succ_of_sless)
  from Suc.IH [OF this, of "d * 2" "Some w" ?h]
  obtain t where t: "Retry_loop ctx N fn (i + 1) (d * 2) (Some w) ?h =
      (fn (?h @ t), ?h @ t @ [Invoked (fn (?h @ t))])" "invocations t = n"
    by blast
  show ?case
    using step t by (intro exI [of _ "[Invoked (Some w), Waited d] @ t"]) simp
qed

text \<open>
  C9. For every \<open>attempts \<le> 0\<close>, \<open>Retry\<close> does not invoke the work function (the run has no
  interaction at all) and returns nil, whatever the work function, the delay and the
  context are.
\<close>

theorem Retry_nonpositive_attempts:
  "attempts \<le>s 0 \<Longrightarrow>
     Retry ctx attempts initialDelay fn = (None, []) \<and>
     invocations (snd (Retry ctx attempts initialDelay fn)) = 0"
  by (simp add: Retry_def Retry_loop.simps [of ctx attempts fn 0] word_sless_alt word_sle_eq)

theorem Retry_nonpositive_attempts_witness:
  "(- 3 :: GoInt) \<le>s 0 \<and> Retry cancelled (- 3) 5 fail = (None, []) \<and>
   invocations (snd (Retry cancelled (- 3) 5 fail)) = 0"
  using Retry_nonpositive_attempts [of "- 3" cancelled 5 fail]
  by (simp add: word_sle_eq)

text \<open>
  C4. For every \<open>N \<ge> 1\<close>, every delay and every context that is never cancelled, if the
  work function returns an error at every invocation, then \<open>Retry\<close> invokes it exactly
  \<open>N\<close> times and returns the error of the last invocation: the run ends with that
  invocation, and the value returned is the one it produced.
\<close>

theorem Retry_all_fail:
  assumes "1 \<le>s N" and "\<forall>h. \<not> Done ctx h" and "\<forall>d h. \<not> Done_first ctx d h"
    and "\<forall>h. fn h \<noteq> None"
  shows "\<exists>h. Retry ctx N d fn = (fn h, h @ [Invoked (fn h)]) \<and> fn h \<noteq> None \<and>
           invocations (h @ [Invoked (fn h)]) = nat (sint N)"
proof -
  from assms(1) have pos: "1 \<le> sint N" by (simp add: word_sle_eq)
  then have "sint N - sint (0 :: 64 word) = int (Suc (nat (sint N) - 1))" by simp
  from Retry_loop_all_fail [OF assms(2-4) this, of d None "[]"]
  obtain t where t: "Retry ctx N d fn = (fn t, t @ [Invoked (fn t)])"
      "invocations t = nat (sint N) - 1"
    by (auto simp: Retry_def)
  show ?thesis
    using t pos assms(4) by (intro exI [of _ t]) (simp add: invocations_append)
qed

theorem Retry_all_fail_witness:
  "(1 :: GoInt) \<le>s 3 \<and>
   (\<exists>h. Retry Background 3 10 fail = (fail h, h @ [Invoked (fail h)]) \<and> fail h \<noteq> None \<and>
      invocations (h @ [Invoked (fail h)]) = nat (sint (3 :: GoInt)))"
  using Retry_all_fail [of 3 Background fail 10]
  by (simp add: Background_def fail_def word_sle_eq)

lemma Retry_loop_succeeds_at:
  assumes nd: "\<forall>h. \<not> Done ctx h" and nf: "\<forall>d h. \<not> Done_first ctx d h"
    and fails: "\<forall>h. invocations h < k \<longrightarrow> fn h \<noteq> None"
    and ok: "\<forall>h. invocations h = k \<longrightarrow> fn h = None"
  shows "invocations h + m = k \<Longrightarrow> sint i + int m < sint N \<Longrightarrow>
    \<exists>h'. Retry_loop ctx N fn i d e h = (None, h') \<and> invocations h' = Suc k"
proof (induction m arbitrary: i d e h)
  case 0
  then have lt: "i <s N" by (simp add: word_sless_alt)
  from nd have nd': "\<not> Done ctx h" by simp
  from ok 0 have "fn h = None" by simp
  with lt nd' have "Retry_loop ctx N fn i d e h = (None, h @ [Invoked None])"
    by (simp add: Retry_loop_success)
  with 0 show ?case by (simp add: invocations_append)
next
  case (Suc m)
  then have lt: "i <s N" and notlast: "sint i + 1 \<noteq> sint N"
    by (simp_all add: word_sless_alt)
  from nd have nd': "\<not> Done ctx h" by simp
  from fails Suc.prems have "fn h \<noteq> None" by simp
  then obtain w where w: "fn h = Some w" by auto
  from nf have nf': "\<not> Done_first ctx d (h @ [Invoked (Some w)])" by simp
  let ?h = "h @ [Invoked (Some w), Waited d]"
  have step: "Retry_loop ctx N fn i d e h = Retry_loop ctx N fn (i + 1) (d * 2) (Some w) ?h"
    using Retry_loop_again [of i N ctx h fn w d e] lt nd' w notlast nf' by simp
  have "invocations ?h + m = k" "sint (i + 1) + int m < sint N"
    using Suc.prems lt by (simp_all add: invocations_append sint_succ_of_sless)
  from Suc.IH [OF this] step show ?case by simp
qed







text \<open>
  C5, as amended. For every \<open>N \<ge> 1\<close> and every \<open>k < N\<close>, on a context that is never
  cancelled: if the work function fails on its first \<open>k\<close> invocations and succeeds on
  invocation \<open>k + 1\<close>, then \<open>Retry\<close> with \<open>attempts = N\<close> invokes it exactly \<open>k + 1\<close> times
  and returns nil. With \<open>k = 0\<close>: a work function that never errors is invoked exactly
  once.
\<close>

theorem Retry_early_success:
  assumes "int k < sint N"
    and "\<forall>h. \<not> Done ctx h" and "\<forall>d h. \<not> Done_first ctx d h"
    and "\<forall>h. invocations h < k \<longrightarrow> fn h \<noteq> None"
    and "\<forall>h. invocations h = k \<longrightarrow> fn h = None"
  shows "\<exists>h. Retry ctx N d fn = (None, h) \<and> invocations h = Suc k"
  using Retry_loop_succeeds_at [OF assms(2-5), of "[]" k 0 N d None] assms(1)
  by (simp add: Retry_def)

theorem Retry_early_success_witness:
  "int 2 < sint (5 :: GoInt) \<and>
   (\<exists>h. Retry Background 5 10 (succeed_at 3) = (None, h) \<and> invocations h = Suc 2)"
  using Retry_early_success [of 2 5 Background "succeed_at 3" 10]
  by (simp add: Background_def succeed_at_def)

text \<open>
  C5 as stated says nothing of the context. On a context that is cancelled already, a
  work function that would succeed at once is not invoked at all, and \<open>Retry\<close> returns
  the context's error instead of nil.
\<close>

theorem Retry_early_success_cancelled:
  "(1 :: GoInt) \<le>s 1 \<and> succeed [] = None \<and>
   Retry cancelled 1 10 succeed = (Some Canceled, [Cancelled (Some Canceled)]) \<and>
   invocations (snd (Retry cancelled 1 10 succeed)) = 0"
  by (simp add: Retry_def Retry_loop.simps cancelled_def succeed_def word_sless_alt word_sle_eq)






section \<open>CircuitBreaker: properties\<close>

lemma Execute_each_append:
  "Execute_each now (fs @ gs) cb h =
     Execute_each now gs (fst (Execute_each now fs cb h)) (snd (Execute_each now fs cb h))"
  by (induction fs arbitrary: cb h) (simp_all split: prod.splits)

lemma Execute_each_snoc:
  "fst (Execute_each now (fs @ [g]) cb h) =
     fst (snd (Execute now (fst (Execute_each now fs cb h)) g (snd (Execute_each now fs cb h))))"
  by (simp add: Execute_each_append split: prod.splits)

lemma Execute_Closed_failure_below:
  assumes "state cb = Closed" and "fn h = Some e"
    and "sint (failureCount cb) + 1 < sint (failureThreshold cb)"
  shows "Execute now cb fn h =
    (Some e, cb\<lparr>failureCount := failureCount cb + 1\<rparr>, h @ [Invoked (Some e)])"
proof -
  from assms(3) have "failureCount cb <s failureThreshold cb"
    by (simp add: word_sless_alt)
  then have "sint (failureCount cb + 1) = sint (failureCount cb) + 1"
    by (rule sint_succ_of_sless)
  with assms show ?thesis
    by (simp add: Execute_def Execute_gate_def onFailure_def Let_def word_sle_eq)
qed

lemma Execute_Closed_failure_trips:
  assumes "state cb = Closed" and "fn h = Some e"
    and "sint (failureCount cb) + 1 = sint (failureThreshold cb)"
  shows "state (fst (snd (Execute now cb fn h))) = Open"
proof -
  from assms(3) have "failureCount cb <s failureThreshold cb"
    by (simp add: word_sless_alt)
  then have "sint (failureCount cb + 1) = sint (failureCount cb) + 1"
    by (rule sint_succ_of_sless)
  with assms show ?thesis
    by (simp add: Execute_def Execute_gate_def onFailure_def Let_def word_sle_eq)
qed

lemma Execute_Closed_success:
  assumes "state cb = Closed" and "fn h = None"
  shows "Execute now cb fn h = (None, cb\<lparr>failureCount := 0\<rparr>, h @ [Invoked None])"
  using assms by (simp add: Execute_def Execute_gate_def onSuccess_def)

lemma Execute_each_failures_below:
  assumes "\<forall>fn\<in>set fns. \<forall>h. fn h \<noteq> None"
    and "state cb = Closed"
    and "sint (failureCount cb) + int (length fns) < sint (failureThreshold cb)"
  shows "fst (Execute_each now fns cb h) =
           cb\<lparr>failureCount := failureCount cb + of_nat (length fns)\<rparr>"
  using assms
proof (induction fns arbitrary: cb h)
  case Nil
  then show ?case by simp
next
  case (Cons fn fns)
  from Cons.prems(1) have "fn h \<noteq> None" by simp
  then obtain e where e: "fn h = Some e" by auto
  let ?cb = "cb\<lparr>failureCount := failureCount cb + 1\<rparr>"
  from Cons.prems have below: "sint (failureCount cb) + 1 < sint (failureThreshold cb)"
    by simp
  then have "failureCount cb <s failureThreshold cb"
    by (simp add: word_sless_alt)
  then have s: "sint (failureCount cb + 1) = sint (failureCount cb) + 1"
    by (rule sint_succ_of_sless)
  have step: "Execute now cb fn h = (Some e, ?cb, h @ [Invoked (Some e)])"
    using Cons.prems(2) e below by (rule Execute_Closed_failure_below)
  have "fst (Execute_each now fns ?cb (h @ [Invoked (Some e)])) =
      ?cb\<lparr>failureCount := failureCount ?cb + of_nat (length fns)\<rparr>"
    using Cons.prems s by (intro Cons.IH) simp_all
  with step show ?case by (simp add: add.assoc add.commute)
qed

lemma Execute_Open_elapsed:
  assumes "state cb = Open" and "openTimeout cb <s Sub (now h) (lastFailureTime cb)"
  shows "Execute now cb fn h =
     Execute now (cb\<lparr>state := HalfOpen, successCount := 0\<rparr>) fn (h @ [Clock (now h)])"
  using assms by (simp add: Execute_def Execute_gate_def)

lemma Execute_HalfOpen_success_below:
  assumes "state cb = HalfOpen" and "fn h = None"
    and "sint (successCount cb) + 1 < sint (successThreshold cb)"
  shows "Execute now cb fn h =
    (None, cb\<lparr>successCount := successCount cb + 1\<rparr>, h @ [Invoked None])"
proof -
  from assms(3) have "successCount cb <s successThreshold cb"
    by (simp add: word_sless_alt)
  then have "sint (successCount cb + 1) = sint (successCount cb) + 1"
    by (rule sint_succ_of_sless)
  with assms show ?thesis
    by (simp add: Execute_def Execute_gate_def onSuccess_def Let_def word_sle_eq)
qed

lemma Execute_HalfOpen_success_closes:
  assumes "state cb = HalfOpen" and "fn h = None"
    and "sint (successCount cb) + 1 = sint (successThreshold cb)"
  shows "Execute now cb fn h =
    (None, cb\<lparr>successCount := successCount cb + 1, state := Closed, failureCount := 0\<rparr>,
     h @ [Invoked None])"
proof -
  from assms(3) have "successCount cb <s successThreshold cb"
    by (simp add: word_sless_alt)
  then have "sint (successCount cb + 1) = sint (successCount cb) + 1"
    by (rule sint_succ_of_sless)
  with assms show ?thesis
    by (simp add: Execute_def Execute_gate_def onSuccess_def Let_def word_sle_eq)
qed

lemma Execute_HalfOpen_failure:
  assumes "state cb = HalfOpen" and "fn h = Some e"
  shows "Execute now cb fn h =
    (Some e, cb\<lparr>state := Open, lastFailureTime := now (h @ [Invoked (Some e)])\<rparr>,
     h @ [Invoked (Some e), Clock (now (h @ [Invoked (Some e)]))])"
  using assms by (simp add: Execute_def Execute_gate_def onFailure_def Let_def)

lemma Execute_each_successes_below:
  assumes "\<forall>fn\<in>set fns. \<forall>h. fn h = None"
    and "state cb = HalfOpen"
    and "sint (successCount cb) + int (length fns) < sint (successThreshold cb)"
  shows "Execute_each now fns cb h =
           (cb\<lparr>successCount := successCount cb + of_nat (length fns)\<rparr>,
            h @ replicate (length fns) (Invoked None))"
  using assms
proof (induction fns arbitrary: cb h)
  case Nil
  then show ?case by simp
next
  case (Cons fn fns)
  from Cons.prems(1) have ok: "fn h = None" by simp
  let ?cb = "cb\<lparr>successCount := successCount cb + 1\<rparr>"
  from Cons.prems have below: "sint (successCount cb) + 1 < sint (successThreshold cb)"
    by simp
  then have "successCount cb <s successThreshold cb"
    by (simp add: word_sless_alt)
  then have s: "sint (successCount cb + 1) = sint (successCount cb) + 1"
    by (rule sint_succ_of_sless)
  have step: "Execute now cb fn h = (None, ?cb, h @ [Invoked None])"
    using Cons.prems(2) ok below by (rule Execute_HalfOpen_success_below)
  have "Execute_each now fns ?cb (h @ [Invoked None]) =
      (?cb\<lparr>successCount := successCount ?cb + of_nat (length fns)\<rparr>,
       (h @ [Invoked None]) @ replicate (length fns) (Invoked None))"
    using Cons.prems s by (intro Cons.IH) simp_all
  with step show ?case by (simp add: add.assoc add.commute)
qed

lemma sint_pred_of_pos:
  fixes S :: "64 word"
  assumes "0 < sint S"
  shows "sint (S - 1) = sint S - 1"
proof -
  have "sint S < 2 ^ 63" using sint_lt [of S] by simp
  with assms have "signed_take_bit 63 (sint S - 1) = sint S - 1"
    by (intro signed_take_bit_int_eq_self) auto
  then show ?thesis by (simp add: sint_word_ariths)
qed

lemma of_nat_pred_of_pos:
  fixes S :: "64 word"
  assumes "0 < sint S" and "Suc n = nat (sint S)"
  shows "(of_nat n :: 64 word) = S - 1"
proof -
  from assms have "int n = sint S - 1" by simp
  then have "(of_nat n :: 64 word) = word_of_int (sint S - 1)"
    by (metis of_int_of_nat_eq)
  then show ?thesis by simp
qed

lemma Execute_each_HalfOpen_closes:
  assumes "0 < sint (successThreshold cb)" and "state cb = HalfOpen" and "successCount cb = 0"
    and "length fns = nat (sint (successThreshold cb))"
    and "\<forall>fn\<in>set fns. \<forall>h. fn h = None"
  shows "state (fst (Execute_each now fns cb h)) = Closed \<and>
         failureCount (fst (Execute_each now fns cb h)) = 0 \<and>
         snd (Execute_each now fns cb h) = h @ replicate (length fns) (Invoked None) \<and>
         state (fst (Execute_each now (butlast fns) cb h)) = HalfOpen"
proof -
  from assms(1,4) have ne: "fns \<noteq> []" by auto
  let ?S = "successThreshold cb"
  let ?fs = "butlast fns" and ?g = "last fns"
  have fns: "fns = ?fs @ [?g]" using ne by simp
  have len: "Suc (length ?fs) = nat (sint ?S)" using assms(1,4) by simp
  have all: "\<forall>fn\<in>set ?fs. \<forall>h. fn h = None"
    using assms(5) by (auto dest: in_set_butlastD)
  let ?h = "h @ replicate (length ?fs) (Invoked None)"
  have g: "?g ?h = None"
    using assms(5) ne by simp
  have "sint (successCount cb) + int (length ?fs) < sint ?S"
    using assms(1,3) len by simp
  from Execute_each_successes_below [OF all assms(2) this]
  have run: "Execute_each now ?fs cb h = (cb\<lparr>successCount := of_nat (length ?fs)\<rparr>, ?h)"
    using assms(3) by simp
  have sc: "(of_nat (length ?fs) :: 64 word) = ?S - 1"
    using assms(1) len by (rule of_nat_pred_of_pos)
  let ?cb = "cb\<lparr>successCount := of_nat (length ?fs)\<rparr>"
  have half: "state ?cb = HalfOpen" using assms(2) by simp
  have "sint (successCount ?cb) + 1 = sint (successThreshold ?cb)"
    using sc assms(1) by (simp add: sint_pred_of_pos)
  with half g
  have last: "Execute now ?cb ?g ?h =
      (None, ?cb\<lparr>successCount := successCount ?cb + 1, state := Closed, failureCount := 0\<rparr>,
       ?h @ [Invoked None])"
    by (rule Execute_HalfOpen_success_closes)
  have "Execute_each now (?fs @ [?g]) cb h = Execute_each now [?g] ?cb ?h"
    by (simp only: Execute_each_append run fst_conv snd_conv)
  also have "\<dots> =
      (?cb\<lparr>successCount := successCount ?cb + 1, state := Closed, failureCount := 0\<rparr>,
       ?h @ [Invoked None])"
    by (simp only: Execute_each.simps last prod.case)
  finally have "Execute_each now (?fs @ [?g]) cb h =
      (?cb\<lparr>successCount := successCount ?cb + 1, state := Closed, failureCount := 0\<rparr>,
       ?h @ [Invoked None])" .
  moreover have "?h @ [Invoked None] = h @ replicate (length fns) (Invoked None)"
  proof -
    from ne have "length fns = Suc (length ?fs)" by simp
    then show ?thesis by (simp only: replicate_Suc append_assoc flip: replicate_append_same)
  qed
  ultimately have "Execute_each now fns cb h =
      (?cb\<lparr>successCount := successCount ?cb + 1, state := Closed, failureCount := 0\<rparr>,
       h @ replicate (length fns) (Invoked None))"
    using fns by simp
  with run half show ?thesis by simp
qed

lemma Execute_each_Open_elapsed:
  assumes "state cb = Open" and "openTimeout cb <s Sub (now h) (lastFailureTime cb)"
    and "fns \<noteq> []"
  shows "Execute_each now fns cb h =
     Execute_each now fns (cb\<lparr>state := HalfOpen, successCount := 0\<rparr>) (h @ [Clock (now h)])"
  using assms by (cases fns) (simp_all add: Execute_Open_elapsed)

text \<open>
  C1. For a breaker that is Open, a call of \<open>Execute\<close> that finds more than \<open>openTimeout\<close>
  elapsed since \<open>lastFailureTime\<close> is admitted, the breaker becoming HalfOpen with
  \<open>successCount = 0\<close> before the work function runs. If the work function then fails, the
  breaker is Open again and \<open>lastFailureTime\<close> is the instant of that failure. If instead
  that call and the ones after it succeed, \<open>successThreshold\<close> calls in all, each of them
  invoking the work function, the breaker ends Closed with \<open>failureCount = 0\<close>, and it
  is still HalfOpen before the last of them.
\<close>

theorem Execute_half_open_trial:
  assumes "state cb = Open" and "openTimeout cb <s Sub (now h) (lastFailureTime cb)"
  shows "Execute_gate now cb h =
           (Some (cb\<lparr>state := HalfOpen, successCount := 0\<rparr>), h @ [Clock (now h)]) \<and>
    (fn (h @ [Clock (now h)]) = Some e \<longrightarrow>
       Execute now cb fn h =
         (Some e,
          cb\<lparr>state := Open, successCount := 0,
               lastFailureTime := now (h @ [Clock (now h), Invoked (Some e)])\<rparr>,
          h @ [Clock (now h), Invoked (Some e),
               Clock (now (h @ [Clock (now h), Invoked (Some e)]))])) \<and>
    (0 <s successThreshold cb \<and> length fns = nat (sint (successThreshold cb)) \<and>
     (\<forall>fn\<in>set fns. \<forall>h. fn h = None) \<longrightarrow>
       state (fst (Execute_each now fns cb h)) = Closed \<and>
       failureCount (fst (Execute_each now fns cb h)) = 0 \<and>
       snd (Execute_each now fns cb h) =
         h @ Clock (now h) # replicate (length fns) (Invoked None) \<and>
       (1 < length fns \<longrightarrow>
          state (fst (Execute_each now (butlast fns) cb h)) = HalfOpen))"
proof (intro conjI impI)
  show "Execute_gate now cb h =
      (Some (cb\<lparr>state := HalfOpen, successCount := 0\<rparr>), h @ [Clock (now h)])"
    using assms by (simp add: Execute_gate_def)
next
  assume "fn (h @ [Clock (now h)]) = Some e"
  then show "Execute now cb fn h =
         (Some e,
          cb\<lparr>state := Open, successCount := 0,
               lastFailureTime := now (h @ [Clock (now h), Invoked (Some e)])\<rparr>,
          h @ [Clock (now h), Invoked (Some e),
               Clock (now (h @ [Clock (now h), Invoked (Some e)]))])"
    using assms by (simp add: Execute_Open_elapsed Execute_HalfOpen_failure)
next
  let ?cb = "cb\<lparr>state := HalfOpen, successCount := 0\<rparr>" and ?h = "h @ [Clock (now h)]"
  assume a: "0 <s successThreshold cb \<and> length fns = nat (sint (successThreshold cb)) \<and>
     (\<forall>fn\<in>set fns. \<forall>h. fn h = None)"
  then have pos: "0 < sint (successThreshold ?cb)" and len: "length fns = nat (sint (successThreshold ?cb))"
    and ok: "\<forall>fn\<in>set fns. \<forall>h. fn h = None"
    by (simp_all add: word_sless_alt)
  from pos len have ne: "fns \<noteq> []" by auto
  have closes: "state (fst (Execute_each now fns ?cb ?h)) = Closed \<and>
         failureCount (fst (Execute_each now fns ?cb ?h)) = 0 \<and>
         snd (Execute_each now fns ?cb ?h) = ?h @ replicate (length fns) (Invoked None) \<and>
         state (fst (Execute_each now (butlast fns) ?cb ?h)) = HalfOpen"
    using pos _ _ len ok by (rule Execute_each_HalfOpen_closes) simp_all
  have whole: "Execute_each now fns cb h = Execute_each now fns ?cb ?h"
    using assms ne by (rule Execute_each_Open_elapsed)
  show "state (fst (Execute_each now fns cb h)) = Closed"
    and "failureCount (fst (Execute_each now fns cb h)) = 0"
    and "snd (Execute_each now fns cb h) = h @ Clock (now h) # replicate (length fns) (Invoked None)"
    using closes whole by simp_all
  assume "1 < length fns"
  then have "butlast fns \<noteq> []" by (cases fns) auto
  with assms have "Execute_each now (butlast fns) cb h = Execute_each now (butlast fns) ?cb ?h"
    by (rule Execute_each_Open_elapsed)
  with closes show "state (fst (Execute_each now (butlast fns) cb h)) = HalfOpen"
    by simp
qed

theorem Execute_half_open_trial_witness:
  "state (tripped 0) = Open \<and>
   openTimeout (tripped 0) <s Sub (clock_at 110000000 []) (lastFailureTime (tripped 0)) \<and>
   Execute_gate (clock_at 110000000) (tripped 0) [] =
     (Some ((tripped 0)\<lparr>state := HalfOpen, successCount := 0\<rparr>), [Clock 110000000]) \<and>
   Execute (clock_at 110000000) (tripped 0) fail [] =
     (Some errTest, tripped 110000000,
      [Clock 110000000, Invoked (Some errTest), Clock 110000000]) \<and>
   state (fst (Execute_each (clock_at 110000000) [succeed, succeed] (tripped 0) [])) = Closed \<and>
   failureCount (fst (Execute_each (clock_at 110000000) [succeed, succeed] (tripped 0) [])) = 0 \<and>
   snd (Execute_each (clock_at 110000000) [succeed, succeed] (tripped 0) []) =
     [Clock 110000000, Invoked None, Invoked None] \<and>
   state (fst (Execute_each (clock_at 110000000) [succeed] (tripped 0) [])) = HalfOpen"
proof -
  have a: "state (tripped 0) = Open"
    by (simp add: tripped_def)
  have b: "openTimeout (tripped 0) <s Sub (clock_at 110000000 []) (lastFailureTime (tripped 0))"
    by (simp add: tripped_def NewCircuitBreaker_def clock_at_def Sub_def word_sless_alt)
  have c: "fail ([] @ [Clock (clock_at 110000000 [])]) = Some errTest"
    by (simp add: fail_def)
  have d: "0 <s successThreshold (tripped 0) \<and>
      length [succeed, succeed] = nat (sint (successThreshold (tripped 0))) \<and>
      (\<forall>fn\<in>set [succeed, succeed]. \<forall>h. fn h = None)"
    by (simp add: tripped_def NewCircuitBreaker_def succeed_def word_sless_alt)
  from Execute_half_open_trial [where cb = "tripped 0" and now = "clock_at 110000000"
      and h = "[]" and fn = fail and e = errTest and fns = "[succeed, succeed]"] a b c d
  show ?thesis
    by (simp add: clock_at_def tripped_def NewCircuitBreaker_def eval_nat_numeral)
qed

text \<open>
  C2. For a breaker with \<open>failureThreshold = F\<close>, \<open>F\<close> positive, that is Closed with
  \<open>failureCount = 0\<close>: \<open>F\<close> failing calls of \<open>Execute\<close> in a row leave it Open, and no
  fewer do, the breaker being Closed with \<open>failureCount = n\<close> after \<open>n < F\<close> of them;
  \<open>F - 1\<close> failing calls and then a succeeding one leave it Closed with
  \<open>failureCount = 0\<close>.
\<close>

theorem Execute_trip_threshold:
  assumes "0 <s F" and "failureThreshold cb = F"
    and "state cb = Closed" and "failureCount cb = 0"
    and "length fns = nat (sint F) - 1"
    and "\<forall>fn\<in>set fns. \<forall>h. fn h \<noteq> None" and "\<forall>h. bad h \<noteq> None" and "\<forall>h. good h = None"
  shows "state (fst (Execute_each now (fns @ [bad]) cb h)) = Open \<and>
         (\<forall>n\<le>length fns. state (fst (Execute_each now (take n fns) cb h)) = Closed \<and>
            failureCount (fst (Execute_each now (take n fns) cb h)) = of_nat n) \<and>
         state (fst (Execute_each now (fns @ [good]) cb h)) = Closed \<and>
         failureCount (fst (Execute_each now (fns @ [good]) cb h)) = 0"
proof -
  from assms(1) have pos: "0 < sint F" by (simp add: word_sless_alt)
  let ?cb = "fst (Execute_each now fns cb h)" and ?h = "snd (Execute_each now fns cb h)"
  have below: "fst (Execute_each now (take n fns) cb h) = cb\<lparr>failureCount := of_nat n\<rparr>"
    if "n \<le> length fns" for n
  proof -
    have "\<forall>fn\<in>set (take n fns). \<forall>h. fn h \<noteq> None"
      using assms(6) by (auto dest: in_set_takeD)
    moreover have "sint (failureCount cb) + int (length (take n fns)) < sint (failureThreshold cb)"
      using assms(2,4,5) pos that by simp
    ultimately have "fst (Execute_each now (take n fns) cb h) =
        cb\<lparr>failureCount := failureCount cb + of_nat (length (take n fns))\<rparr>"
      using assms(3) by (intro Execute_each_failures_below)
    with that assms(4) show ?thesis by (simp add: min_absorb2)
  qed
  from below [of "length fns"] have cb': "?cb = cb\<lparr>failureCount := of_nat (length fns)\<rparr>"
    by simp
  have "Suc (length fns) = nat (sint F)"
    using assms(5) pos by simp
  with pos have n: "(of_nat (length fns) :: 64 word) = F - 1"
    by (rule of_nat_pred_of_pos)
  have closed: "state ?cb = Closed" and thr: "failureThreshold ?cb = F" and fc: "failureCount ?cb = F - 1"
    using cb' assms(2,3) n by simp_all
  obtain e where e: "bad ?h = Some e" using assms(7) by (metis not_Some_eq)
  have "state (fst (snd (Execute now ?cb bad ?h))) = Open"
    using closed e by (rule Execute_Closed_failure_trips) (simp add: fc thr pos sint_pred_of_pos)
  moreover have "Execute now ?cb good ?h = (None, ?cb\<lparr>failureCount := 0\<rparr>, ?h @ [Invoked None])"
    using closed assms(8) by (intro Execute_Closed_success) simp_all
  ultimately show ?thesis
    using closed below assms(3) by (simp add: Execute_each_snoc)
qed

theorem Execute_trip_threshold_witness:
  "(0 :: GoInt) <s 3 \<and>
   state (fst (Execute_each (clock_at 5) ([fail, fail] @ [fail])
       (NewCircuitBreaker 3 1 60000000000) [])) = Open \<and>
   state (fst (Execute_each (clock_at 5) (take 2 [fail, fail])
       (NewCircuitBreaker 3 1 60000000000) [])) = Closed \<and>
   failureCount (fst (Execute_each (clock_at 5) (take 2 [fail, fail])
       (NewCircuitBreaker 3 1 60000000000) [])) = 2 \<and>
   state (fst (Execute_each (clock_at 5) ([fail, fail] @ [succeed])
       (NewCircuitBreaker 3 1 60000000000) [])) = Closed \<and>
   failureCount (fst (Execute_each (clock_at 5) ([fail, fail] @ [succeed])
       (NewCircuitBreaker 3 1 60000000000) [])) = 0"
proof -
  have pos: "(0 :: GoInt) <s 3" by (simp add: word_sless_alt)
  have thr: "failureThreshold (NewCircuitBreaker 3 1 60000000000) = 3"
    and st: "state (NewCircuitBreaker 3 1 60000000000) = Closed"
    and fc: "failureCount (NewCircuitBreaker 3 1 60000000000) = 0"
    by (simp_all add: NewCircuitBreaker_def)
  have len: "length [fail, fail] = nat (sint (3 :: GoInt)) - 1" by simp
  have fs: "\<forall>fn\<in>set [fail, fail]. \<forall>h. fn h \<noteq> None" and f: "\<forall>h. fail h \<noteq> None"
    and s: "\<forall>h. succeed h = None"
    by (simp_all add: fail_def succeed_def)
  from Execute_trip_threshold [OF pos thr st fc len fs f s, of "clock_at 5" "[]"]
  have "state (fst (Execute_each (clock_at 5) ([fail, fail] @ [fail])
         (NewCircuitBreaker 3 1 60000000000) [])) = Open"
    and all: "\<forall>n\<le>length [fail, fail].
        state (fst (Execute_each (clock_at 5) (take n [fail, fail])
          (NewCircuitBreaker 3 1 60000000000) [])) = Closed \<and>
        failureCount (fst (Execute_each (clock_at 5) (take n [fail, fail])
          (NewCircuitBreaker 3 1 60000000000) [])) = of_nat n"
    and "state (fst (Execute_each (clock_at 5) ([fail, fail] @ [succeed])
         (NewCircuitBreaker 3 1 60000000000) [])) = Closed"
    and "failureCount (fst (Execute_each (clock_at 5) ([fail, fail] @ [succeed])
         (NewCircuitBreaker 3 1 60000000000) [])) = 0"
    by blast+
  moreover from all [rule_format, of 2]
  have "state (fst (Execute_each (clock_at 5) (take 2 [fail, fail])
         (NewCircuitBreaker 3 1 60000000000) [])) = Closed"
    and "failureCount (fst (Execute_each (clock_at 5) (take 2 [fail, fail])
         (NewCircuitBreaker 3 1 60000000000) [])) = 2"
    by simp_all
  ultimately show ?thesis using pos by blast
qed

text \<open>
  C3. A call of \<open>Execute\<close> on an Open breaker that finds no more than \<open>openTimeout\<close> elapsed
  since \<open>lastFailureTime\<close> returns \<open>ErrCircuitOpen\<close>, leaves every field of the breaker as
  it was and does not invoke the work function: it only reads the clock.
\<close>

theorem Execute_rejects_while_open:
  assumes "state cb = Open" and "\<not> openTimeout cb <s Sub (now h) (lastFailureTime cb)"
  shows "Execute now cb fn h = (Some ErrCircuitOpen, cb, h @ [Clock (now h)]) \<and>
         invocations (h @ [Clock (now h)]) = invocations h"
  using assms by (simp add: Execute_def Execute_gate_def invocations_append)

theorem Execute_rejects_while_open_witness:
  "state (tripped 0) = Open \<and>
   \<not> openTimeout (tripped 0) <s Sub (clock_at 100000000 []) (lastFailureTime (tripped 0)) \<and>
   Execute (clock_at 100000000) (tripped 0) succeed [] =
     (Some ErrCircuitOpen, tripped 0, [] @ [Clock (clock_at 100000000 [])]) \<and>
   invocations ([] @ [Clock (clock_at 100000000 [])]) = invocations []"
proof -
  have a: "state (tripped 0) = Open"
    by (simp add: tripped_def)
  have b: "\<not> openTimeout (tripped 0) <s Sub (clock_at 100000000 []) (lastFailureTime (tripped 0))"
    by (simp add: tripped_def NewCircuitBreaker_def clock_at_def Sub_def word_sless_alt)
  from Execute_rejects_while_open
      [where cb = "tripped 0" and now = "clock_at 100000000" and h = "[]" and fn = succeed] a b
  show ?thesis by simp
qed




text \<open>
  C10. A breaker made by \<open>NewCircuitBreaker\<close>, whatever the arguments, is Closed with both
  counts 0, and its first call of \<open>Execute\<close> is admitted: the work function is invoked
  once and \<open>Execute\<close> returns what it returned.
\<close>

theorem NewCircuitBreaker_admits_first_call:
  "state (NewCircuitBreaker f s t) = Closed \<and>
   failureCount (NewCircuitBreaker f s t) = 0 \<and>
   successCount (NewCircuitBreaker f s t) = 0 \<and>
   Execute_gate now (NewCircuitBreaker f s t) h = (Some (NewCircuitBreaker f s t), h) \<and>
   fst (Execute now (NewCircuitBreaker f s t) fn h) = fn h \<and>
   invocations (snd (snd (Execute now (NewCircuitBreaker f s t) fn h))) = Suc (invocations h)"
  by (simp add: NewCircuitBreaker_def Execute_def Execute_gate_def onSuccess_def onFailure_def
      Let_def invocations_append)

end
